theory Spec2Isabelle
  imports Main "HOL-Library.Word"
begin

unbundle bit_operations_syntax

section \<open>JavaScript strings and the string primitives the dispatcher uses\<close>

text \<open>
  A JavaScript string is a sequence of UTF-16 code units; \<open>length\<close>, \<open>slice\<close>,
  \<open>indexOf\<close> and the regular expressions of the source (none has the \<open>u\<close> flag) all
  count code units. A string is therefore a list of code units, each a natural number.
  \<open>js\<close> turns an ASCII literal into such a list.
\<close>

type_synonym jsstring = "nat list"

definition js :: "string \<Rightarrow> jsstring" where
  "js s = map of_char s"

text \<open>The class \<open>\s\<close> of a JavaScript regular expression; \<open>trim\<close> strips the same set.\<close>

definition is_space :: "nat \<Rightarrow> bool" where
  "is_space c \<longleftrightarrow>
     c \<in> set [9, 10, 11, 12, 13, 32, 160, 5760, 8232, 8233, 8239, 8287, 12288, 65279]
     \<or> (8192 \<le> c \<and> c \<le> 8202)"

text \<open>The class \<open>.\<close> (no \<open>s\<close> flag): every code unit but the four line terminators.\<close>

definition is_dot :: "nat \<Rightarrow> bool" where
  "is_dot c \<longleftrightarrow> c \<notin> set [10, 13, 8232, 8233]"

definition trim :: "jsstring \<Rightarrow> jsstring" where
  "trim s = rev (dropWhile is_space (rev (dropWhile is_space s)))"

definition starts_with :: "jsstring \<Rightarrow> jsstring \<Rightarrow> bool" where
  "starts_with s p \<longleftrightarrow> take (length p) s = p"

text \<open>
  \<open>s.indexOf(p)\<close>: the first position at which \<open>p\<close> occurs in \<open>s\<close>, or \<open>-1\<close>.
  The empty string occurs at position 0 of every string.
\<close>

fun indexOf_from :: "nat \<Rightarrow> jsstring \<Rightarrow> jsstring \<Rightarrow> int" where
  "indexOf_from i [] p = (if p = [] then int i else -1)"
| "indexOf_from i (c # s) p =
     (if starts_with (c # s) p then int i else indexOf_from (Suc i) s p)"

definition indexOf :: "jsstring \<Rightarrow> jsstring \<Rightarrow> int" where
  "indexOf s p = indexOf_from 0 s p"

text \<open>
  \<open>s.slice(0, e)\<close>: a negative end counts from the end of the string (\<open>slice(0, -1)\<close>
  drops the last code unit), an end beyond the string is clamped.
\<close>

definition slice0 :: "jsstring \<Rightarrow> int \<Rightarrow> jsstring" where
  "slice0 s e = (if e < 0 then take (nat (int (length s) + e)) s else take (nat e) s)"

text \<open>\<open>'' + n\<close> for a non-negative integer below \<open>10^21\<close>: its decimal digits.\<close>

function decimal :: "nat \<Rightarrow> jsstring" where
  "decimal n = (if n < 10 then [48 + n] else decimal (n div 10) @ [48 + n mod 10])"
  by pat_completeness auto
termination
  by (relation "measure id") auto

section \<open>Regular expressions\<close>

text \<open>
  The patterns the source compiles are built from literals, alternation, an optional
  item, a character set, \<open>\s*\<close>, \<open>\s+\<close> and \<open>.+\<close>. A JavaScript engine searches by
  backtracking and returns the first match in priority order: the left alternative
  before the right one, the greedy quantifier's longest repetition before the shorter
  ones. \<open>matches r s\<close> lists, in that order, what is left of \<open>s\<close> after each way of
  matching \<open>r\<close> at its start; the head of the list is the engine's answer.
\<close>

datatype re =
    Lit jsstring
  | Seq re re
  | Alt "re list"
  | Opt re
  | OneOf "nat list"
  | SpaceStar
  | SpacePlus
  | DotPlus

definition greedy :: "(nat \<Rightarrow> bool) \<Rightarrow> nat \<Rightarrow> jsstring \<Rightarrow> jsstring list" where
  "greedy cls least s =
     map (\<lambda>k. drop k s) (rev [least ..< Suc (length (takeWhile cls s))])"

fun matches :: "re \<Rightarrow> jsstring \<Rightarrow> jsstring list" where
  "matches (Lit l) s = (if starts_with s l then [drop (length l) s] else [])"
| "matches (Seq a b) s = concat (map (matches b) (matches a s))"
| "matches (Alt rs) s = concat (map (\<lambda>r. matches r s) rs)"
| "matches (Opt r) s = matches r s @ [s]"
| "matches (OneOf cs) s = (case s of [] \<Rightarrow> [] | c # t \<Rightarrow> if c \<in> set cs then [t] else [])"
| "matches SpaceStar s = greedy is_space 0 s"
| "matches SpacePlus s = greedy is_space 1 s"
| "matches DotPlus s = greedy is_dot 1 s"

text \<open>
  A compiled \<open>RegExp\<close>: \<open>/^$/\<close>, a pattern anchored at the start (\<open>^r\<close>), or an
  unanchored one, which is tried at every position from the left.
\<close>

datatype regexp = EmptyOnly | Anchored re | Floating re

text \<open>The text matched at the start of \<open>s\<close> (\<open>capture[0]\<close>), if the pattern matches there.\<close>

definition match_here :: "re \<Rightarrow> jsstring \<Rightarrow> jsstring option" where
  "match_here r s =
     (case matches r s of [] \<Rightarrow> None | t # _ \<Rightarrow> Some (take (length s - length t) s))"

fun search :: "re \<Rightarrow> jsstring \<Rightarrow> jsstring option" where
  "search r [] = match_here r []"
| "search r (c # s) =
     (case match_here r (c # s) of Some m \<Rightarrow> Some m | None \<Rightarrow> search r s)"

text \<open>
  \<open>s.match(re)\<close> for a pattern without the \<open>g\<close> flag, reduced to \<open>capture[0]\<close>;
  \<open>None\<close> is JavaScript's \<open>null\<close>.
\<close>

fun match :: "regexp \<Rightarrow> jsstring \<Rightarrow> jsstring option" where
  "match EmptyOnly s = (if s = [] then Some [] else None)"
| "match (Anchored r) s = match_here r s"
| "match (Floating r) s = search r s"

text \<open>
  \<open>s.match(undefined)\<close> compiles \<open>new RegExp(undefined)\<close>, the empty pattern, which
  matches the empty string at position 0 of every string.
\<close>

fun match_field :: "regexp option \<Rightarrow> jsstring \<Rightarrow> jsstring option" where
  "match_field None s = Some []"
| "match_field (Some r) s = match r s"

section \<open>The addressing matchers\<close>

text \<open>
  \<open>createLeadingRE (patterns, prefix, suffix)\<close>. The source joins the patterns, each
  escaped by \<open>escapeRegex\<close>, into one alternation between the two fragments; an escaped
  pattern compiles to the pattern that matches exactly its text, hence \<open>Lit\<close>. The two
  fragments are given here as already parsed patterns; the default \<open>''\<close> is \<open>Lit []\<close>.
\<close>

definition createLeadingRE :: "jsstring list \<Rightarrow> re \<Rightarrow> re \<Rightarrow> regexp" where
  "createLeadingRE patterns pre suf =
     (if length patterns \<noteq> 0 then Anchored (Seq pre (Seq (Alt (map Lit patterns)) suf))
      else EmptyOnly)"

text \<open>An option of type \<open>string | string[]\<close> that may be absent.\<close>

datatype strs = Unset | Single jsstring | Multiple "jsstring list"

text \<open>
  \<open>Array.isArray(nickname) ? nickname : nickname ? [nickname] : []\<close>; the empty string
  is falsy.
\<close>

fun nicknames_of :: "strs \<Rightarrow> jsstring list" where
  "nicknames_of (Multiple l) = l"
| "nicknames_of (Single n) = (if n \<noteq> [] then [n] else [])"
| "nicknames_of Unset = []"

text \<open>\<open>Array.isArray(prefix) ? prefix : [prefix || '']\<close>.\<close>

fun prefixes_of :: "strs \<Rightarrow> jsstring list" where
  "prefixes_of (Multiple l) = l"
| "prefixes_of (Single p) = [if p \<noteq> [] then p else []]"
| "prefixes_of Unset = [[]]"

text \<open>The suffix \<open>([,\<dots>]\s*|\s+)\<close> of the nickname pattern; its set holds the comma and
  the fullwidth comma U+FF0C.\<close>

definition name_suffix :: re where
  "name_suffix = Alt [Seq (OneOf [44, 65292]) SpaceStar, SpacePlus]"

definition make_nameRE :: "strs \<Rightarrow> regexp" where
  "make_nameRE nickname = createLeadingRE (nicknames_of nickname) (Opt (Lit (js ''@''))) name_suffix"

definition make_prefixRE :: "strs \<Rightarrow> regexp" where
  "make_prefixRE prefix = createLeadingRE (prefixes_of prefix) (Lit []) (Lit [])"

text \<open>
  A bot of \<open>server.bots\<close>: its self-identifier, absent until known, and whether it has a
  request channel (\<open>bot._get\<close>). An identifier is truthy when it is present and not 0.
\<close>

record bot =
  selfId :: "nat option"
  has_get :: bool

definition truthy_id :: "nat option \<Rightarrow> bool" where
  "truthy_id i = (case i of None \<Rightarrow> False | Some n \<Rightarrow> n \<noteq> 0)"

text \<open>\<open>'' + bot.selfId\<close>.\<close>

definition id_text :: "nat option \<Rightarrow> jsstring" where
  "id_text i = (case i of None \<Rightarrow> js ''undefined'' | Some n \<Rightarrow> decimal n)"

text \<open>The identifiers \<open>prepare\<close> collects: bots with a truthy \<open>selfId\<close> and \<open>_get\<close>.\<close>

definition known_selfIds :: "bot list \<Rightarrow> jsstring list" where
  "known_selfIds bs =
     map (\<lambda>b. id_text (selfId b)) (filter (\<lambda>b. truthy_id (selfId b) \<and> has_get b) bs)"

definition make_atMeRE :: "bot list \<Rightarrow> regexp" where
  "make_atMeRE bs =
     createLeadingRE (known_selfIds bs) (Lit (js ''[CQ:at,qq='')) (Seq (Lit (js '']'')) SpaceStar)"

section \<open>Sessions\<close>

datatype messageType = Private | Group | Discuss

record parsed =
  atMe :: bool
  nickname :: jsstring
  prefix :: "jsstring option"
  message :: jsstring

text \<open>
  The first half of \<open>_preprocess\<close>: the three matchers applied in order to the trimmed
  and simplified text. \<open>_atMeRE\<close> is undefined until \<open>prepare\<close> has run.
\<close>

definition strip_atMe :: "regexp option \<Rightarrow> messageType \<Rightarrow> parsed \<Rightarrow> parsed" where
  "strip_atMe re mt p =
     (if mt \<noteq> Private then
        (case match_field re (message p) of
           Some capture \<Rightarrow> p\<lparr>atMe := True, nickname := capture,
                               message := drop (length capture) (message p)\<rparr>
         | None \<Rightarrow> p)
      else p)"

definition strip_name :: "regexp \<Rightarrow> parsed \<Rightarrow> parsed" where
  "strip_name re p =
     (case match re (message p) of
        Some capture \<Rightarrow>
          if length capture \<noteq> 0
          then p\<lparr>nickname := capture, message := drop (length capture) (message p)\<rparr>
          else p
      | None \<Rightarrow> p)"

definition strip_prefix :: "regexp \<Rightarrow> parsed \<Rightarrow> parsed" where
  "strip_prefix re p =
     (case match re (message p) of
        Some capture \<Rightarrow> p\<lparr>prefix := Some capture, message := drop (length capture) (message p)\<rparr>
      | None \<Rightarrow> p)"

definition strip :: "regexp option \<Rightarrow> regexp \<Rightarrow> regexp \<Rightarrow> messageType \<Rightarrow> jsstring \<Rightarrow> parsed" where
  "strip atRE nmRE pfRE mt msg =
     strip_prefix pfRE (strip_name nmRE (strip_atMe atRE mt
       \<lparr>atMe = False, nickname = [], prefix = None, message = msg\<rparr>))"

text \<open>Rows of the group and user tables, reduced to the columns the dispatcher reads.\<close>

record group_row =
  gflag :: int
  assignee :: nat

record user_row =
  uflag :: int

text \<open>An option declared on a command, and a command node, as far as the source uses them.\<close>

record option_decl =
  rawName :: jsstring
  description :: jsstring
  hidden :: bool

record command =
  name :: jsstring
  has_action :: bool
  examples :: "jsstring list option"
  options :: "option_decl list"

text \<open>A parsed command line; \<open>helpOption\<close> is the truthiness of \<open>options.help\<close>.\<close>

record argv =
  command :: command
  args :: "jsstring list"
  helpOption :: bool

record session =
  sMessage :: jsstring
  sMessageType :: messageType
  sSelfId :: nat
  sUser :: "user_row option"
  sGroup :: "group_row option"
  sParsed :: "parsed option"
  sArgv :: "argv option"

section \<open>Middlewares\<close>

text \<open>
  A value that was thrown: a native \<open>Error\<close>, given by its \<open>stack\<close> text, or any other
  value, given by its string form.
\<close>

datatype thrown = NativeError jsstring | NonNative jsstring

text \<open>
  How a call ends: it returns (a promise that is fulfilled, or a plain value), it throws
  synchronously, or it returns a promise that is rejected. The body of an \<open>async\<close>
  function never throws synchronously: whatever it throws rejects its promise.
\<close>

datatype outcome = Resolved | Thrown thrown | Rejected thrown

text \<open>
  What a middleware does besides calling its continuation. The results of the calls into
  the storage and into the listeners are part of the action.
\<close>

datatype action =
    Assign parsed "argv option"
  | Emit jsstring
  | Serialize jsstring
  | Parallelize jsstring
  | ObserveGroup "jsstring list" "thrown + group_row"
  | ObserveUser "jsstring list" "thrown + user_row"
  | Execute argv

text \<open>
  The behaviour of one middleware (or fallback) during one dispatch, as the sequence of
  what it does. \<open>CallNext fallback lastCall awaited rest\<close> calls \<open>next(fallback)\<close> from
  the source location \<open>lastCall\<close> (the line of the stack trace that \<open>next\<close> reads) and
  goes on as \<open>rest\<close>; when the promise that \<open>next\<close> returns is rejected, a caller that
  awaits or returns it (\<open>awaited\<close>) is rejected with the same value, and a caller that
  drops it goes on. \<open>Throw\<close> is the end of a plain function that throws, \<open>Reject\<close> the
  end of an \<open>async\<close> function that throws or of a function that returns a rejected promise.
  A callback is taken to come to an end.
\<close>

datatype mw =
    Return
  | Throw thrown
  | Reject thrown
  | Do action mw
  | CallNext "mw option" jsstring bool mw

datatype event =
    Did action
  | Entered nat
  | Warned jsstring
  | Deleted nat
  | AfterMiddleware
  | UserUpdated
  | GroupUpdated

text \<open>
  The fields of \<open>App\<close> that the modelled methods read and write. A registration in
  \<open>_hooks[MIDDLEWARE_EVENT]\<close> is the selector of its context (\<open>context.match\<close>) and the
  callback, which is given the session. \<open>_getSelfIdsPromise\<close> is undefined (\<open>None\<close>)
  until \<open>getSelfIds\<close> creates it; a promise is pending, fulfilled or rejected.
\<close>

datatype promise = Pending | Fulfilled | Failed thrown

record app =
  bots :: "bot list"
  database :: bool
  getSelfIdsPromise :: "promise option"
  atMeRE :: "regexp option"
  nameRE :: regexp
  prefixRE :: regexp
  middlewareCounter :: nat
  middlewareSet :: "nat set"
  hooks :: "((session \<Rightarrow> bool) \<times> (session \<Rightarrow> mw)) list"

text \<open>
  The state one dispatch works on: the application, the variables its continuation closes
  over (\<open>index\<close>, \<open>stack\<close>, \<open>middlewares\<close>), the session, and what has been observed
  so far. The token \<open>counter\<close>, which the continuation closes over too, never changes and
  is an argument of the functions below. Counters are natural numbers: a JavaScript number
  counts exactly up to \<open>2^53\<close>, which no run reaches.
\<close>

record world =
  this :: app
  index :: nat
  stack :: jsstring
  middlewares :: "mw list"
  sess :: session
  trace :: "event list"

text \<open>
  The stack text the runtime gives an \<open>Error\<close> that is constructed inside an invocation
  of \<open>next\<close>, from the error's message and the invocation's caller line.
\<close>

type_synonym runtime = "jsstring \<Rightarrow> jsstring \<Rightarrow> jsstring"

fun perform :: "action \<Rightarrow> world \<Rightarrow> world" where
  "perform (Assign p a) s =
     s\<lparr>sess := (sess s)\<lparr>sParsed := Some p, sArgv := a\<rparr>, trace := trace s @ [Did (Assign p a)]\<rparr>"
| "perform (ObserveGroup fs (Inr g)) s =
     s\<lparr>sess := (sess s)\<lparr>sGroup := Some g\<rparr>, trace := trace s @ [Did (ObserveGroup fs (Inr g))]\<rparr>"
| "perform (ObserveUser fs (Inr u)) s =
     s\<lparr>sess := (sess s)\<lparr>sUser := Some u\<rparr>, trace := trace s @ [Did (ObserveUser fs (Inr u))]\<rparr>"
| "perform a s = s\<lparr>trace := trace s @ [Did a]\<rparr>"

text \<open>
  \<open>/\((.+)\)/\<close>, and the entry the continuation prepends to the trail. \<open>lastCall\<close> is
  the third line of the stack trace of an \<open>Error\<close> made at the start of the invocation, the
  line of the caller; the trace is taken to have that line.
\<close>

definition parenRE :: regexp where
  "parenRE = Floating (Seq (Lit (js ''('')) (Seq DotPlus (Lit (js '')''))))"

definition trail_entry :: "jsstring \<Rightarrow> jsstring" where
  "trail_entry lastCall =
     (case match parenRE lastCall of
        Some capture \<Rightarrow> butlast (tl capture)
      | None \<Rightarrow> drop 7 lastCall)"

definition enter :: "jsstring \<Rightarrow> world \<Rightarrow> world" where
  "enter lastCall s =
     (if index s \<noteq> 0
      then s\<lparr>stack := [10, 32, 32, 45, 32] @ trail_entry lastCall @ stack s\<rparr>
      else s)"

definition isolated :: "runtime \<Rightarrow> nat \<Rightarrow> jsstring \<Rightarrow> world \<Rightarrow> thrown option" where
  "isolated rt counter lastCall s =
     (if counter \<notin> middlewareSet (this s)
      then Some (NativeError (rt (js ''isolated next function detected'') lastCall))
      else None)"

definition push :: "mw option \<Rightarrow> world \<Rightarrow> world" where
  "push fallback s =
     (case fallback of None \<Rightarrow> s | Some f \<Rightarrow> s\<lparr>middlewares := middlewares s @ [f]\<rparr>)"

definition native_stack :: "runtime \<Rightarrow> jsstring \<Rightarrow> thrown \<Rightarrow> jsstring" where
  "native_stack rt lastCall e =
     (case e of NativeError st \<Rightarrow> st | NonNative v \<Rightarrow> rt v lastCall)"

definition warning :: "runtime \<Rightarrow> jsstring \<Rightarrow> thrown \<Rightarrow> world \<Rightarrow> jsstring" where
  "warning rt lastCall e s =
     (let st = native_stack rt lastCall e; i = indexOf st lastCall
      in sMessage (sess s) @ [10] @ slice0 st i @ js ''Middleware stack:'' @ stack s)"

definition catch :: "runtime \<Rightarrow> jsstring \<Rightarrow> thrown \<Rightarrow> world \<Rightarrow> world" where
  "catch rt lastCall e s = s\<lparr>trace := trace s @ [Warned (warning rt lastCall e s)]\<rparr>"

text \<open>
  The work a state still holds: the callbacks from the cursor on. Every invocation of the
  continuation moves the cursor, and a fallback is appended at the end of the list, so this
  quantity bounds the recursion of the interpreter below.
\<close>

fun msize :: "mw \<Rightarrow> nat" where
  "msize Return = 1"
| "msize (Throw e) = 1"
| "msize (Reject e) = 1"
| "msize (Do a k) = Suc (msize k)"
| "msize (CallNext None lc aw k) = 2 + msize k"
| "msize (CallNext (Some f) lc aw k) = 2 + msize f + msize k"

definition osize :: "mw option \<Rightarrow> nat" where
  "osize fallback = (case fallback of None \<Rightarrow> 0 | Some f \<Rightarrow> msize f)"

definition pending :: "world \<Rightarrow> nat" where
  "pending s = sum_list (map msize (drop (index s) (middlewares s)))"

text \<open>
  \<open>next\<close>, the continuation of \<open>_applyMiddlewares\<close>, and \<open>run\<close>, which carries out a
  callback. \<open>next\<close> is an \<open>async\<close> function: a callback that throws synchronously is
  caught by its \<open>try\<close>, and a callback that returns a promise has that promise returned
  without \<open>await\<close>, so a rejection of it passes through the \<open>try\<close> and rejects the
  promise of \<open>next\<close>.
\<close>

function run :: "runtime \<Rightarrow> nat \<Rightarrow> mw \<Rightarrow> world \<Rightarrow> outcome \<times> world"
  and "next" :: "runtime \<Rightarrow> nat \<Rightarrow> mw option \<Rightarrow> jsstring \<Rightarrow> world \<Rightarrow> outcome \<times> world" where
  "run rt counter Return s = (Resolved, s)"
| "run rt counter (Throw e) s = (Thrown e, s)"
| "run rt counter (Reject e) s = (Rejected e, s)"
| "run rt counter (Do a k) s = run rt counter k (perform a s)"
| "run rt counter (CallNext fallback lastCall awaited k) s =
     (case next rt counter fallback lastCall s of
        (Rejected e, s') \<Rightarrow> if awaited then (Rejected e, s') else run rt counter k s'
      | (_, s') \<Rightarrow> run rt counter k s')"
| "next rt counter fallback lastCall s =
     (let s1 = enter lastCall s in
      case isolated rt counter lastCall s1 of
        Some e \<Rightarrow> (Resolved, catch rt lastCall e s1)
      | None \<Rightarrow>
          let s2 = push fallback s1; i = index s2; s3 = s2\<lparr>index := Suc i\<rparr> in
          if i < length (middlewares s2) then
            (case run rt counter (middlewares s2 ! i) (s3\<lparr>trace := trace s3 @ [Entered i]\<rparr>) of
               (Thrown e, s4) \<Rightarrow> (Resolved, catch rt lastCall e s4)
             | (r, s4) \<Rightarrow> (r, s4))
          else (Resolved, s3))"
  by pat_completeness auto

text \<open>
  The interpreter terminates: a call of \<open>next\<close> never leaves more work behind than it
  found, beyond the fallback it was given.
\<close>

lemma pending_perform [simp]: "pending (perform a s) = pending s"
  by (cases "(a, s)" rule: perform.cases) (simp_all add: pending_def)

lemma pending_enter [simp]: "pending (enter lc s) = pending s"
  by (simp add: pending_def enter_def)

lemma pending_catch [simp]: "pending (catch rt lc e s) = pending s"
  by (simp add: pending_def catch_def)

lemma pending_push: "pending (push fb s) \<le> osize fb + pending s"
proof (cases fb)
  case None
  then show ?thesis by (simp add: pending_def push_def osize_def)
next
  case (Some f)
  then show ?thesis
    by (cases "index s - length (middlewares s)") (simp_all add: pending_def push_def osize_def)
qed

lemma pending_step:
  assumes "index s < length (middlewares s)"
  shows "msize (middlewares s ! index s) + pending (s\<lparr>index := Suc (index s), trace := t\<rparr>) = pending s"
  using assms by (simp add: pending_def Cons_nth_drop_Suc[symmetric])

lemma pending_past:
  assumes "\<not> index s < length (middlewares s)"
  shows "pending (s\<lparr>index := Suc (index s)\<rparr>) = 0"
  using assms by (simp add: pending_def)

lemma pending_bound:
  "run_next_dom (Inl (rt, c, m, s)) \<Longrightarrow> pending (snd (run rt c m s)) \<le> msize m + pending s"
  "run_next_dom (Inr (rt, c, fb, lc, s)) \<Longrightarrow> pending (snd (next rt c fb lc s)) \<le> osize fb + pending s"
proof (induct rule: run_next.pinduct)
  case (1 rt counter s)
  then show ?case by (simp add: run.psimps)
next
  case (2 rt counter e s)
  then show ?case by (simp add: run.psimps)
next
  case (3 rt counter e s)
  then show ?case by (simp add: run.psimps)
next
  case (4 rt counter a k s)
  then show ?case by (simp add: run.psimps)
next
  case (5 rt counter fallback lastCall awaited k s)
  obtain r s' where n: "next rt counter fallback lastCall s = (r, s')"
    by (cases "next rt counter fallback lastCall s")
  have b1: "pending s' \<le> osize fallback + pending s"
    using 5(2) n by simp
  have sz: "msize (CallNext fallback lastCall awaited k) = 2 + osize fallback + msize k"
    by (cases fallback) (simp_all add: osize_def)
  show ?case
  proof (cases r)
    case Resolved
    then have "pending (snd (run rt counter k s')) \<le> msize k + pending s'"
      using 5(3)[of r s'] n by simp
    then show ?thesis using 5(1) n Resolved b1 sz by (simp add: run.psimps)
  next
    case (Thrown e)
    then have "pending (snd (run rt counter k s')) \<le> msize k + pending s'"
      using 5(4)[of r s' e] n by simp
    then show ?thesis using 5(1) n Thrown b1 sz by (simp add: run.psimps)
  next
    case (Rejected e)
    show ?thesis
    proof (cases awaited)
      case True
      then show ?thesis using 5(1) n Rejected b1 sz by (simp add: run.psimps)
    next
      case False
      then have "pending (snd (run rt counter k s')) \<le> msize k + pending s'"
        using 5(5)[of r s' e] n Rejected by simp
      then show ?thesis using 5(1) n Rejected False b1 sz by (simp add: run.psimps)
    qed
  qed
next
  case (6 rt counter fallback lastCall s)
  define s1 where "s1 = enter lastCall s"
  define s2 where "s2 = push fallback s1"
  have p1: "pending s1 = pending s"
    unfolding s1_def by simp
  have p2: "pending s2 \<le> osize fallback + pending s"
    unfolding s2_def s1_def using pending_push[of fallback "enter lastCall s"] by simp
  show ?case
  proof (cases "isolated rt counter lastCall s1")
    case (Some e)
    then show ?thesis using 6(1) p1 by (simp add: next.psimps s1_def[symmetric])
  next
    case None
    show ?thesis
    proof (cases "index s2 < length (middlewares s2)")
      case True
      let ?s3 = "s2\<lparr>index := Suc (index s2)\<rparr>"
      let ?s3' = "?s3\<lparr>trace := trace ?s3 @ [Entered (index s2)]\<rparr>"
      have ih: "pending (snd (run rt counter (middlewares s2 ! index s2) ?s3'))
                  \<le> msize (middlewares s2 ! index s2) + pending ?s3'"
        using 6(2)[OF s1_def None s2_def refl refl True] .
      have "msize (middlewares s2 ! index s2) + pending ?s3' = pending s2"
        using pending_step[OF True] by simp
      with ih p2 have b: "pending (snd (run rt counter (middlewares s2 ! index s2) ?s3'))
                  \<le> osize fallback + pending s" by simp
      obtain r s4 where r: "run rt counter (middlewares s2 ! index s2) ?s3' = (r, s4)"
        by (cases "run rt counter (middlewares s2 ! index s2) ?s3'")
      show ?thesis using 6(1) None True r b
        by (cases r) (simp_all add: next.psimps s1_def[symmetric] s2_def[symmetric] Let_def)
    next
      case False
      then show ?thesis using 6(1) None pending_past[OF False]
        by (simp add: next.psimps s1_def[symmetric] s2_def[symmetric] Let_def)
    qed
  qed
qed


lemma msize_CallNext: "msize (CallNext fb lc aw k) = 2 + osize fb + msize k"
  by (cases fb) (simp_all add: osize_def)

termination run
proof (relation "measure (\<lambda>x. case x of Inl (rt, c, m, s) \<Rightarrow> msize m + pending s | Inr (rt, c, fb, lc, s) \<Rightarrow> Suc (osize fb + pending s))", goal_cases)
  case 1
  show ?case by simp
next
  case (2 rt counter a k s)
  show ?case by simp
next
  case (3 rt counter fallback lastCall awaited k s)
  show ?case by (simp add: msize_CallNext)
next
  case (4 rt counter fallback lastCall awaited k s x y)
  have "pending y \<le> osize fallback + pending s"
    using 4 pending_bound(2)[of rt counter fallback lastCall s] by (metis snd_conv)
  then show ?case by (simp add: msize_CallNext)
next
  case (5 rt counter fallback lastCall awaited k s x y e)
  have "pending y \<le> osize fallback + pending s"
    using 5 pending_bound(2)[of rt counter fallback lastCall s] by (metis snd_conv)
  then show ?case by (simp add: msize_CallNext)
next
  case (6 rt counter fallback lastCall awaited k s x y e)
  have "pending y \<le> osize fallback + pending s"
    using 6 pending_bound(2)[of rt counter fallback lastCall s] by (metis snd_conv)
  then show ?case by (simp add: msize_CallNext)
next
  case (7 rt counter fallback lastCall s s1 s2 i s3)
  have "index s2 < length (middlewares s2)" using 7 by simp
  from pending_step[OF this, of "trace s3 @ [Entered i]"]
  have "msize (middlewares s2 ! i) + pending (s3\<lparr>trace := trace s3 @ [Entered i]\<rparr>) = pending s2"
    using 7 by simp
  moreover have "pending s2 \<le> osize fallback + pending s"
    using pending_push[of fallback s1] 7 by simp
  ultimately show ?case by simp
qed

declare next.simps [simp del]

section \<open>The dispatcher\<close>

text \<open>
  The snapshot of \<open>_applyMiddlewares\<close>: the callbacks whose context matches the
  session, in registration order.
\<close>

definition snapshot :: "app \<Rightarrow> session \<Rightarrow> mw list" where
  "snapshot a ss = map (\<lambda>(ctx, m). m ss) (filter (\<lambda>(ctx, m). ctx ss) (hooks a))"

text \<open>How the two \<open>_update()\<close> calls of the storage end, when they are made.\<close>

record updates =
  userUpdate :: "thrown option"
  groupUpdate :: "thrown option"

text \<open>
  The lines after \<open>await next()\<close>: the token leaves the live set, the notification is
  emitted, and the attached rows are flushed, the user's first. \<open>_update\<close> is awaited, so
  a flush that fails rejects the dispatch there.
\<close>

definition flush_group :: "updates \<Rightarrow> world \<Rightarrow> outcome \<times> world" where
  "flush_group upd s =
     (case sGroup (sess s) of
        None \<Rightarrow> (Resolved, s)
      | Some g \<Rightarrow>
          (case groupUpdate upd of
             None \<Rightarrow> (Resolved, s\<lparr>trace := trace s @ [GroupUpdated]\<rparr>)
           | Some e \<Rightarrow> (Rejected e, s\<lparr>trace := trace s @ [GroupUpdated]\<rparr>)))"

definition flush_user :: "updates \<Rightarrow> world \<Rightarrow> outcome \<times> world" where
  "flush_user upd s =
     (case sUser (sess s) of
        None \<Rightarrow> flush_group upd s
      | Some u \<Rightarrow>
          (case userUpdate upd of
             None \<Rightarrow> flush_group upd (s\<lparr>trace := trace s @ [UserUpdated]\<rparr>)
           | Some e \<Rightarrow> (Rejected e, s\<lparr>trace := trace s @ [UserUpdated]\<rparr>)))"

definition cleanup :: "updates \<Rightarrow> nat \<Rightarrow> world \<Rightarrow> outcome \<times> world" where
  "cleanup upd counter s =
     flush_user upd
       (s\<lparr>this := (this s)\<lparr>middlewareSet := middlewareSet (this s) - {counter}\<rparr>,
          trace := trace s @ [Deleted counter, AfterMiddleware]\<rparr>)"

definition start :: "app \<Rightarrow> session \<Rightarrow> world" where
  "start a ss =
     \<lparr>this = a\<lparr>middlewareCounter := middlewareCounter a + 1,
                middlewareSet := insert (middlewareCounter a) (middlewareSet a)\<rparr>,
      index = 0, stack = [], middlewares = snapshot a ss, sess = ss, trace = []\<rparr>"

text \<open>
  \<open>_applyMiddlewares\<close>. \<open>lastCall\<close> is the line of the stack trace for its own call of
  \<open>next\<close>. The call is awaited outside any \<open>try\<close>: a rejected promise of \<open>next\<close>
  rejects the dispatch and the lines after it do not run.
\<close>

definition applyMiddlewares :: "runtime \<Rightarrow> jsstring \<Rightarrow> updates \<Rightarrow> app \<Rightarrow> session \<Rightarrow> outcome \<times> world" where
  "applyMiddlewares rt lastCall upd a ss =
     (case next rt (middlewareCounter a) None lastCall (start a ss) of
        (Rejected e, s) \<Rightarrow> (Rejected e, s)
      | (_, s) \<Rightarrow> cleanup upd (middlewareCounter a) s)"

section \<open>The first middleware\<close>

text \<open>
  What the collaborators of \<open>_preprocess\<close> answer during one dispatch: \<open>simplify\<close> of
  koishi-utils, \<open>Context.parse\<close>, the columns the listeners add to the two column sets,
  the rows the storage delivers, the verdicts of the listeners on \<open>attach-group\<close>,
  \<open>attach-user\<close> and \<open>attach\<close>, how the execution of the command ends, and the two
  \<open>ignore\<close> bits of \<open>Group.Flag\<close> and \<open>User.Flag\<close>. A call that is awaited may
  reject (\<open>Inl\<close>, \<open>Some\<close>).
\<close>

record env =
  simplify :: "jsstring \<Rightarrow> jsstring"
  parse :: "session \<Rightarrow> parsed \<Rightarrow> argv option"
  groupFields :: "jsstring list"
  observeGroup :: "thrown + group_row"
  attachGroup :: "thrown + bool"
  userFields :: "jsstring list"
  observeUser :: "thrown + user_row"
  attachUser :: "thrown + bool"
  attach :: "thrown option"
  execute :: "thrown option"
  Group_Flag_ignore :: "32 word"
  User_Flag_ignore :: "32 word"

text \<open>\<open>flag & bits\<close> as a condition: both operands as 32-bit integers, nonzero result.\<close>

definition flagged :: "int \<Rightarrow> 32 word \<Rightarrow> bool" where
  "flagged flag bits \<longleftrightarrow> (word_of_int flag AND bits) \<noteq> 0"

text \<open>The last two lines of \<open>_preprocess\<close>.\<close>

definition trigger :: "env \<Rightarrow> jsstring \<Rightarrow> argv option \<Rightarrow> mw" where
  "trigger ev lastCall av =
     (case av of
        None \<Rightarrow> CallNext None lastCall True Return
      | Some v \<Rightarrow> Do (Execute v) (case execute ev of None \<Rightarrow> Return | Some e \<Rightarrow> Reject e))"

definition attach_user :: "env \<Rightarrow> mw \<Rightarrow> mw" where
  "attach_user ev k =
     Do (Emit (js ''before-attach-user''))
       (Do (ObserveUser (js ''flag'' # userFields ev) (observeUser ev))
          (case observeUser ev of
             Inl e \<Rightarrow> Reject e
           | Inr user \<Rightarrow>
               Do (Serialize (js ''attach-user''))
                 (case attachUser ev of
                    Inl e \<Rightarrow> Reject e
                  | Inr veto \<Rightarrow>
                      if veto then Return
                      else if flagged (uflag user) (User_Flag_ignore ev) then Return
                      else k)))"

definition attach_group :: "env \<Rightarrow> session \<Rightarrow> parsed \<Rightarrow> mw \<Rightarrow> mw" where
  "attach_group ev ss p k =
     Do (Emit (js ''before-attach-group''))
       (Do (ObserveGroup (js ''flag'' # js ''assignee'' # groupFields ev) (observeGroup ev))
          (case observeGroup ev of
             Inl e \<Rightarrow> Reject e
           | Inr grp \<Rightarrow>
               Do (Serialize (js ''attach-group''))
                 (case attachGroup ev of
                    Inl e \<Rightarrow> Reject e
                  | Inr veto \<Rightarrow>
                      if veto then Return
                      else if flagged (gflag grp) (Group_Flag_ignore ev) then Return
                      else if assignee grp \<noteq> sSelfId ss \<and> \<not> atMe p then Return
                      else k)))"

definition gate :: "app \<Rightarrow> env \<Rightarrow> session \<Rightarrow> parsed \<Rightarrow> mw \<Rightarrow> mw" where
  "gate a ev ss p k =
     (if database a then
        (if sMessageType ss = Group then attach_group ev ss p (attach_user ev k)
         else attach_user ev k)
      else k)"

definition attached :: "env \<Rightarrow> mw \<Rightarrow> mw" where
  "attached ev k =
     Do (Parallelize (js ''attach'')) (case attach ev of None \<Rightarrow> k | Some e \<Rightarrow> Reject e)"

text \<open>
  \<open>_preprocess\<close> as the behaviour of a middleware. \<open>lastCall\<close> is the line of the stack
  trace for its call of \<open>next\<close>.
\<close>

definition addressed :: "app \<Rightarrow> env \<Rightarrow> session \<Rightarrow> parsed" where
  "addressed a ev ss =
     strip (atMeRE a) (nameRE a) (prefixRE a) (sMessageType ss) (simplify ev (trim (sMessage ss)))"

definition preprocess :: "app \<Rightarrow> env \<Rightarrow> jsstring \<Rightarrow> session \<Rightarrow> mw" where
  "preprocess a ev lastCall ss =
     (let p = addressed a ev ss; av = parse ev ss p
      in Do (Assign p av) (gate a ev ss p (attached ev (trigger ev lastCall av))))"

text \<open>
  The constructor registers \<open>_preprocess\<close> as a middleware of the application itself, whose
  context matches every session.
\<close>

definition installed :: "env \<Rightarrow> jsstring \<Rightarrow> app \<Rightarrow> app" where
  "installed ev lastCall a = a\<lparr>hooks := hooks a @ [(\<lambda>ss. True, preprocess a ev lastCall)]\<rparr>"

section \<open>The bot identity resolver\<close>

text \<open>\<open>prepare\<close>: the at-mention pattern is rebuilt from the identifiers known now.\<close>

definition prepare :: "app \<Rightarrow> app" where
  "prepare a = a\<lparr>atMeRE := Some (make_atMeRE (bots a))\<rparr>"

text \<open>
  \<open>getSelfIds\<close> runs in pieces: the call itself, up to its \<open>await\<close>, and, for each
  \<open>getLoginInfo()\<close> it has issued, the rest of the bot's task when the answer arrives.
  Between the pieces other code runs. The state holds the application, the
  \<open>getLoginInfo()\<close> calls made so far (by the position of the bot in \<open>server.bots\<close>),
  the calls not answered yet, and how many promises \<open>getSelfIds\<close> has created.
\<close>

record identity =
  app :: app
  loginCalls :: "nat list"
  inFlight :: "nat list"
  created :: nat

text \<open>\<open>server.bots.filter(bot => bot._get)\<close>, as positions.\<close>

definition selected :: "bot list \<Rightarrow> nat list" where
  "selected bs = filter (\<lambda>i. has_get (bs ! i)) [0 ..< length bs]"

text \<open>The guard of a bot's task: \<open>if (bot.selfId || !bot._get) return\<close>.\<close>

definition needs_login :: "bot \<Rightarrow> bool" where
  "needs_login b \<longleftrightarrow> \<not> (truthy_id (selfId b) \<or> \<not> has_get b)"

text \<open>
  The call of \<open>getSelfIds\<close> up to its \<open>await\<close>. When the promise is not there yet,
  each selected bot's task starts and runs to its \<open>getLoginInfo()\<close> call or to its
  \<open>return\<close>, and \<open>Promise.all\<close> of the tasks is stored; otherwise nothing is started.
\<close>

definition getSelfIds :: "identity \<Rightarrow> identity" where
  "getSelfIds st =
     (let bs = selected (bots (app st)) in
      if getSelfIdsPromise (app st) = None then
        (let calls = filter (\<lambda>i. needs_login (bots (app st) ! i)) bs in
         st\<lparr>app := (app st)\<lparr>getSelfIdsPromise := Some (if calls = [] then Fulfilled else Pending)\<rparr>,
            loginCalls := loginCalls st @ calls,
            inFlight := inFlight st @ calls,
            created := created st + 1\<rparr>)
      else st)"

text \<open>
  The answer to the call for bot \<open>i\<close> arrives: \<open>bot.selfId = info.userId\<close> and
  \<open>this.prepare()\<close>; the promise is fulfilled with the last task.
\<close>

definition loginInfo :: "nat \<Rightarrow> nat \<Rightarrow> identity \<Rightarrow> identity" where
  "loginInfo i userId st =
     (if i \<in> set (inFlight st) then
        (let bs = (bots (app st))[i := (bots (app st) ! i)\<lparr>selfId := Some userId\<rparr>];
             rest = remove1 i (inFlight st);
             a = prepare ((app st)\<lparr>bots := bs\<rparr>)
         in st\<lparr>app := (if getSelfIdsPromise a = Some Pending \<and> rest = []
                          then a\<lparr>getSelfIdsPromise := Some Fulfilled\<rparr> else a),
               inFlight := rest\<rparr>)
      else st)"

text \<open>The call for bot \<open>i\<close> fails: \<open>Promise.all\<close> is rejected with the first failure.\<close>

definition loginError :: "nat \<Rightarrow> thrown \<Rightarrow> identity \<Rightarrow> identity" where
  "loginError i e st =
     (if i \<in> set (inFlight st) then
        st\<lparr>app := (if getSelfIdsPromise (app st) = Some Pending
                      then (app st)\<lparr>getSelfIdsPromise := Some (Failed e)\<rparr> else app st),
           inFlight := remove1 i (inFlight st)\<rparr>
      else st)"

text \<open>
  What a caller of \<open>getSelfIds\<close> gets once the promise is settled:
  \<open>bots.map(bot => bot.selfId)\<close>, or the rejection.
\<close>

definition getSelfIds_result :: "identity \<Rightarrow> (thrown + nat option list) option" where
  "getSelfIds_result st =
     (case getSelfIdsPromise (app st) of
        Some Fulfilled \<Rightarrow> Some (Inr (map (\<lambda>i. selfId (bots (app st) ! i)) (selected (bots (app st)))))
      | Some (Failed e) \<Rightarrow> Some (Inl e)
      | _ \<Rightarrow> None)"

text \<open>One turn of the event loop that concerns the resolver.\<close>

datatype turn = GetSelfIds | LoginInfo nat nat | LoginError nat thrown

fun take_turn :: "turn \<Rightarrow> identity \<Rightarrow> identity" where
  "take_turn GetSelfIds st = getSelfIds st"
| "take_turn (LoginInfo i userId) st = loginInfo i userId st"
| "take_turn (LoginError i e) st = loginError i e st"

definition turns :: "turn list \<Rightarrow> identity \<Rightarrow> identity" where
  "turns ts st = foldl (\<lambda>s t. take_turn t s) st ts"

text \<open>The state before the first call of \<open>getSelfIds\<close>.\<close>

definition fresh :: "app \<Rightarrow> identity" where
  "fresh a = \<lparr>app = a\<lparr>getSelfIdsPromise := None\<rparr>, loginCalls = [], inFlight = [], created = 0\<rparr>"

section \<open>The help plugin\<close>

text \<open>
  Modelled from the spec: \<open>Command.option\<close> is not among the sources. A command node
  holds its option definitions, each with its hidden flag; registering an option adds its
  definition to them.
\<close>

definition cmd_option :: "jsstring \<Rightarrow> jsstring \<Rightarrow> bool \<Rightarrow> command \<Rightarrow> command" where
  "cmd_option raw desc hide cmd =
     cmd\<lparr>options := options cmd @ [\<lparr>rawName = raw, description = desc, hidden = hide\<rparr>]\<rparr>"

text \<open>The listener of \<open>new-command\<close>. The description is the source's five-character text.\<close>

definition new_command :: "command \<Rightarrow> command" where
  "new_command cmd =
     cmd_option (js ''-h, --help'') [26174, 31034, 27492, 20449, 24687] True
       (cmd\<lparr>examples := Some []\<rparr>)"

text \<open>
  Modelled from the spec: the constructor of \<open>Command\<close> and \<open>Context.on\<close> are not among
  the sources. The notification \<open>new-command\<close> is fired once for each command node that
  is created, and its listeners run in the order of their registration.
\<close>

definition create_command :: "(command \<Rightarrow> command) list \<Rightarrow> command \<Rightarrow> command" where
  "create_command listeners cmd = foldl (\<lambda>c h. h c) cmd listeners"

text \<open>\<open>apply\<close>, as far as the listeners of \<open>new-command\<close> go.\<close>

definition apply_help :: "(command \<Rightarrow> command) list \<Rightarrow> (command \<Rightarrow> command) list" where
  "apply_help listeners = listeners @ [new_command]"

text \<open>The argument of \<open>app.execute\<close>.\<close>

record execute_call =
  ecommand :: jsstring
  eargs :: "jsstring list"
  esession :: session

text \<open>
  The hook on \<open>before-command\<close>, given how the promise of \<open>app.execute\<close> settles: the
  calls of \<open>app.execute\<close> it makes, and the value it returns (\<open>None\<close> is
  \<open>undefined\<close>) or the value its promise is rejected with.
\<close>

definition before_command :: "thrown option \<Rightarrow> argv \<Rightarrow> session \<Rightarrow> execute_call list \<times> (thrown + bool option)" where
  "before_command executed av ss =
     (if has_action (command av) \<and> \<not> helpOption av then ([], Inr None)
      else ([\<lparr>ecommand = js ''help'', eargs = [name (command av)], esession = ss\<rparr>],
            case executed of None \<Rightarrow> Inr (Some True) | Some e \<Rightarrow> Inl e))"

section \<open>Vocabulary for the properties of a dispatch\<close>

text \<open>The events a callback or the continuation can add to the trace.\<close>

fun chain_event :: "event \<Rightarrow> bool" where
  "chain_event (Did a) = True"
| "chain_event (Entered i) = True"
| "chain_event (Warned w) = True"
| "chain_event e = False"

text \<open>
  A callback that never ends in a rejected promise: it returns, or it throws synchronously,
  and so do the fallbacks it hands over.
\<close>

fun no_reject :: "mw \<Rightarrow> bool" where
  "no_reject Return = True"
| "no_reject (Throw e) = True"
| "no_reject (Reject e) = False"
| "no_reject (Do a k) = no_reject k"
| "no_reject (CallNext None lc aw k) = no_reject k"
| "no_reject (CallNext (Some f) lc aw k) = (no_reject f \<and> no_reject k)"


text \<open>The flushes the cleanup owes: one for each row that is attached to the session.\<close>

definition flushes :: "world \<Rightarrow> event list" where
  "flushes s =
     (case sUser (sess s) of None \<Rightarrow> [] | Some u \<Rightarrow> [UserUpdated]) @
     (case sGroup (sess s) of None \<Rightarrow> [] | Some g \<Rightarrow> [GroupUpdated])"

text \<open>A state after one complete cleanup for the token \<open>counter\<close>.\<close>

definition cleaned :: "nat \<Rightarrow> world \<Rightarrow> world" where
  "cleaned counter s =
     s\<lparr>this := (this s)\<lparr>middlewareSet := middlewareSet (this s) - {counter}\<rparr>,
       trace := trace s @ [Deleted counter, AfterMiddleware] @ flushes s\<rparr>"

definition performs :: "action list \<Rightarrow> world \<Rightarrow> world" where
  "performs acts s = foldl (\<lambda>s a. perform a s) s acts"

text \<open>The calls of the attachment gate, in order, for a session that it lets through.\<close>

definition group_steps :: "env \<Rightarrow> action list" where
  "group_steps ev =
     [Emit (js ''before-attach-group''),
      ObserveGroup (js ''flag'' # js ''assignee'' # groupFields ev) (observeGroup ev),
      Serialize (js ''attach-group'')]"

definition user_steps :: "env \<Rightarrow> action list" where
  "user_steps ev =
     [Emit (js ''before-attach-user''),
      ObserveUser (js ''flag'' # userFields ev) (observeUser ev),
      Serialize (js ''attach-user'')]"

definition gate_steps :: "app \<Rightarrow> env \<Rightarrow> session \<Rightarrow> action list" where
  "gate_steps a ev ss =
     (if database a
      then (if sMessageType ss = Group then group_steps ev else []) @ user_steps ev
      else [])"

text \<open>
  The session gets to the last two lines of \<open>_preprocess\<close>: no call fails, no listener
  vetoes, and no row makes the attachment gate return.
\<close>

definition group_passes :: "env \<Rightarrow> session \<Rightarrow> parsed \<Rightarrow> bool" where
  "group_passes ev ss p =
     (case observeGroup ev of
        Inl e \<Rightarrow> False
      | Inr grp \<Rightarrow>
          (case attachGroup ev of
             Inl e \<Rightarrow> False
           | Inr veto \<Rightarrow> \<not> veto \<and> \<not> flagged (gflag grp) (Group_Flag_ignore ev)
                        \<and> (assignee grp = sSelfId ss \<or> atMe p)))"

definition user_passes :: "env \<Rightarrow> bool" where
  "user_passes ev =
     (case observeUser ev of
        Inl e \<Rightarrow> False
      | Inr user \<Rightarrow>
          (case attachUser ev of
             Inl e \<Rightarrow> False
           | Inr veto \<Rightarrow> \<not> veto \<and> \<not> flagged (uflag user) (User_Flag_ignore ev)))"

definition reaches_trigger :: "app \<Rightarrow> env \<Rightarrow> session \<Rightarrow> bool" where
  "reaches_trigger a ev ss =
     ((if database a
       then (if sMessageType ss = Group then group_passes ev ss (addressed a ev ss) else True)
            \<and> user_passes ev
       else True)
      \<and> attach ev = None)"

text \<open>What \<open>_preprocess\<close> does before its last two lines, for such a session.\<close>

definition steps_to_trigger :: "app \<Rightarrow> env \<Rightarrow> session \<Rightarrow> action list" where
  "steps_to_trigger a ev ss =
     Assign (addressed a ev ss) (parse ev ss (addressed a ev ss)) # gate_steps a ev ss
     @ [Parallelize (js ''attach'')]"

text \<open>How the promise of an awaited call settles.\<close>

definition settled :: "thrown option \<Rightarrow> outcome" where
  "settled r = (case r of None \<Rightarrow> Resolved | Some e \<Rightarrow> Rejected e)"


section \<open>Example inputs\<close>

text \<open>
  An application with two bots whose identifiers are known and no nickname or prefix
  configured, a storage that delivers unremarkable rows, and listeners that never veto.
\<close>

definition demo_runtime :: runtime where
  "demo_runtime msg lastCall = js ''Error: '' @ msg @ [10] @ lastCall"

definition demo_bots :: "bot list" where
  "demo_bots = [\<lparr>selfId = Some 1, has_get = True\<rparr>, \<lparr>selfId = Some 2, has_get = True\<rparr>]"

definition demo_app :: app where
  "demo_app =
     \<lparr>bots = demo_bots, database = True, getSelfIdsPromise = None,
      atMeRE = Some (make_atMeRE demo_bots), nameRE = make_nameRE Unset,
      prefixRE = make_prefixRE Unset, middlewareCounter = 0, middlewareSet = {}, hooks = []\<rparr>"

definition demo_env :: env where
  "demo_env =
     \<lparr>simplify = (\<lambda>m. m), parse = (\<lambda>ss p. None), groupFields = [],
      observeGroup = Inr \<lparr>gflag = 0, assignee = 2\<rparr>, attachGroup = Inr False,
      userFields = [], observeUser = Inr \<lparr>uflag = 0\<rparr>, attachUser = Inr False,
      attach = None, execute = None, Group_Flag_ignore = 1, User_Flag_ignore = 1\<rparr>"

definition demo_session :: "messageType \<Rightarrow> string \<Rightarrow> session" where
  "demo_session mt text =
     \<lparr>sMessage = js text, sMessageType = mt, sSelfId = 1, sUser = None, sGroup = None,
      sParsed = None, sArgv = None\<rparr>"

definition demo_updates :: updates where
  "demo_updates = \<lparr>userUpdate = None, groupUpdate = None\<rparr>"

definition with_middlewares :: "mw list \<Rightarrow> app \<Rightarrow> app" where
  "with_middlewares ms a = a\<lparr>hooks := map (\<lambda>m. (\<lambda>ss. True, \<lambda>ss. m)) ms\<rparr>"

definition demo_world :: world where
  "demo_world =
     \<lparr>this = demo_app, index = 1, stack = [], middlewares = [Return],
      sess = demo_session Private ''hi'', trace = [Entered 0, Deleted 0, AfterMiddleware]\<rparr>"

definition at_dispatch :: jsstring where "at_dispatch = js ''    at App._applyMiddlewares (app.js:254:11)''"

definition at_first :: jsstring where "at_first = js ''    at first (a.js:1:2)''"

definition at_preprocess :: jsstring where "at_preprocess = js ''    at App._preprocess (app.js:219:32)''"

definition demo_argv :: argv where
  "demo_argv =
     \<lparr>command = \<lparr>name = js ''ping'', has_action = True, examples = Some [], options = []\<rparr>,
      args = [], helpOption = False\<rparr>"

definition demo_env_command :: env where
  "demo_env_command = demo_env\<lparr>parse := \<lambda>ss p. Some demo_argv\<rparr>"

definition ping :: parsed where
  "ping = \<lparr>atMe = False, nickname = [], prefix = Some [], message = js ''ping''\<rparr>"

definition demo_env_ignored :: env where
  "demo_env_ignored = demo_env\<lparr>observeGroup := Inr \<lparr>gflag = 1, assignee = 1\<rparr>\<rparr>"

definition hello :: parsed where
  "hello = \<lparr>atMe = False, nickname = [], prefix = Some [], message = js ''hello''\<rparr>"

definition mention_other :: parsed where
  "mention_other = \<lparr>atMe = True, nickname = js ''[CQ:at,qq=2] '', prefix = Some [], message = js ''hi''\<rparr>"

definition demo_unknown :: app where
  "demo_unknown = demo_app\<lparr>bots := [\<lparr>selfId = None, has_get = True\<rparr>, \<lparr>selfId = Some 2, has_get = True\<rparr>]\<rparr>"

definition demo_group :: argv where
  "demo_group =
     \<lparr>command = \<lparr>name = js ''admin'', has_action = False, examples = Some [], options = []\<rparr>,
      args = [], helpOption = False\<rparr>"

section \<open>What the addressing matcher is to do\<close>

text \<open>
  The contract of the three matchers, for comparison with \<open>createLeadingRE\<close>: a matcher
  over a non-empty list accepts a message that has, after the leading fragment, one item of
  the list followed by the trailing fragment; a matcher over the empty list accepts the
  empty message only.
\<close>

definition leading_spec :: "jsstring list \<Rightarrow> re \<Rightarrow> re \<Rightarrow> jsstring \<Rightarrow> bool" where
  "leading_spec patterns pre suf m \<longleftrightarrow>
     (if patterns = [] then m = []
      else \<exists>r\<in>set (matches pre m). \<exists>p\<in>set patterns.
             starts_with r p \<and> matches suf (drop (length p) r) \<noteq> [])"


section \<open>Properties of the addressing matchers\<close>

lemma starts_with_append:
  "starts_with s (a @ b) \<longleftrightarrow> starts_with s a \<and> starts_with (drop (length a) s) b"
  unfolding starts_with_def
proof (induction a arbitrary: s)
  case Nil
  then show ?case by simp
next
  case (Cons x a)
  then show ?case by (cases s) auto
qed

lemma starts_with_Cons:
  "starts_with s (c # p) \<longleftrightarrow> (\<exists>t. s = c # t \<and> starts_with t p)"
  unfolding starts_with_def by (cases s) auto

lemma matches_Alt_Lit:
  "matches (Alt (map Lit ps)) s = concat (map (\<lambda>p. if starts_with s p then [drop (length p) s] else []) ps)"
  by (induction ps) auto

lemma matches_Alt_Lit_Nil:
  "\<forall>p\<in>set ps. \<not> starts_with s p \<Longrightarrow> matches (Alt (map Lit ps)) s = []"
  by (simp add: matches_Alt_Lit)

lemma matches_Alt_Lit_then_Nil:
  "\<forall>p\<in>set ps. starts_with s p \<longrightarrow> matches suf (drop (length p) s) = [] \<Longrightarrow>
   matches (Seq (Alt (map Lit ps)) suf) s = []"
  by (induction ps) (auto simp: matches_Alt_Lit)

lemma matches_Seq_Nil: "matches a s = [] \<Longrightarrow> matches (Seq a b) s = []"
  by simp

lemma matches_Opt_Seq:
  "matches (Seq (Opt (Lit l)) r) s =
     (if starts_with s l then matches r (drop (length l) s) else []) @ matches r s"
  by simp

lemma match_here_None: "matches r s = [] \<Longrightarrow> match_here r s = None"
  by (simp add: match_here_def)

lemma match_createLeadingRE_nomatch:
  assumes "s \<noteq> []" and "patterns \<noteq> [] \<Longrightarrow> matches (Seq pre (Seq (Alt (map Lit patterns)) suf)) s = []"
  shows "match (createLeadingRE patterns pre suf) s = None"
  using assms by (auto simp: createLeadingRE_def match_here_None)

lemma nameRE_nomatch:
  assumes "msg \<noteq> []"
    "\<forall>n\<in>set (nicknames_of nick). \<not> starts_with msg n \<and> \<not> starts_with msg (64 # n)"
  shows "match (make_nameRE nick) msg = None"
  unfolding make_nameRE_def
proof (rule match_createLeadingRE_nomatch[OF assms(1)])
  define r where "r = Seq (Alt (map Lit (nicknames_of nick))) name_suffix"
  have "\<forall>n\<in>set (nicknames_of nick). \<not> starts_with msg n"
    using assms(2) by blast
  then have "matches (Alt (map Lit (nicknames_of nick))) msg = []"
    by (rule matches_Alt_Lit_Nil)
  then have a: "matches r msg = []"
    unfolding r_def by (rule matches_Seq_Nil)
  have b: "matches r (drop (length (js ''@'')) msg) = []" if at: "starts_with msg (js ''@'')"
  proof -
    from at obtain t where t: "msg = 64 # t"
      unfolding js_def by (cases msg) (simp_all add: starts_with_def)
    have "\<forall>n\<in>set (nicknames_of nick). \<not> starts_with t n"
    proof
      fix n assume "n \<in> set (nicknames_of nick)"
      then have "\<not> starts_with msg (64 # n)" using assms(2) by blast
      then show "\<not> starts_with t n" unfolding t by (simp add: starts_with_def)
    qed
    then have "matches (Alt (map Lit (nicknames_of nick))) t = []"
      by (rule matches_Alt_Lit_Nil)
    then have "matches r t = []"
      unfolding r_def by (rule matches_Seq_Nil)
    moreover have "drop (length (js ''@'')) msg = t"
      unfolding t js_def by simp
    ultimately show ?thesis by simp
  qed
  have "matches (Seq (Opt (Lit (js ''@''))) r) msg = []"
    unfolding matches_Opt_Seq using a b by simp
  then show "matches (Seq (Opt (Lit (js ''@''))) (Seq (Alt (map Lit (nicknames_of nick))) name_suffix)) msg = []"
    unfolding r_def .
qed

lemma prefixRE_nomatch:
  assumes "msg \<noteq> []" "\<forall>p\<in>set (prefixes_of pre). \<not> starts_with msg p"
  shows "match (make_prefixRE pre) msg = None"
  unfolding make_prefixRE_def
proof (rule match_createLeadingRE_nomatch[OF assms(1)])
  have "matches (Alt (map Lit (prefixes_of pre))) msg = []"
    using assms(2) by (rule matches_Alt_Lit_Nil)
  then have "matches (Seq (Alt (map Lit (prefixes_of pre))) (Lit [])) msg = []"
    by (rule matches_Seq_Nil)
  then show "matches (Seq (Lit []) (Seq (Alt (map Lit (prefixes_of pre))) (Lit []))) msg = []"
    by (simp add: starts_with_def)
qed

lemma matches_Lit_Seq:
  "matches (Seq (Lit l) r) s = (if starts_with s l then matches r (drop (length l) s) else [])"
  by simp

lemma atMeRE_nomatch:
  assumes "msg \<noteq> []"
    "\<forall>i\<in>set (known_selfIds bs). \<not> starts_with msg (js ''[CQ:at,qq='' @ i @ js '']'')"
  shows "match (make_atMeRE bs) msg = None"
  unfolding make_atMeRE_def
proof (rule match_createLeadingRE_nomatch[OF assms(1)])
  define suf where "suf = Seq (Lit (js '']'')) SpaceStar"
  define lead where "lead = js ''[CQ:at,qq=''"
  have "matches (Seq (Alt (map Lit (known_selfIds bs))) suf) (drop (length lead) msg) = []"
    if lead: "starts_with msg lead"
  proof (rule matches_Alt_Lit_then_Nil, intro ballI impI)
    fix p assume p: "p \<in> set (known_selfIds bs)"
      and sp: "starts_with (drop (length lead) msg) p"
    have "\<not> starts_with msg (lead @ p @ js '']'')"
      using assms(2) p unfolding lead_def by blast
    then have "\<not> starts_with (drop (length p) (drop (length lead) msg)) (js '']'')"
      using lead sp by (simp only: starts_with_append simp_thms)
    then show "matches suf (drop (length p) (drop (length lead) msg)) = []"
      unfolding suf_def matches_Lit_Seq by simp
  qed
  then have "matches (Seq (Lit lead) (Seq (Alt (map Lit (known_selfIds bs))) suf)) msg = []"
    unfolding matches_Lit_Seq by simp
  then show "matches (Seq (Lit (js ''[CQ:at,qq='')) (Seq (Alt (map Lit (known_selfIds bs))) (Seq (Lit (js '']'')) SpaceStar))) msg = []"
    unfolding suf_def lead_def .
qed

lemma strip_nomatch:
  assumes "match_field atRE msg = None \<or> mt = Private" "match nmRE msg = None" "match pfRE msg = None"
  shows "strip atRE nmRE pfRE mt msg = \<lparr>atMe = False, nickname = [], prefix = None, message = msg\<rparr>"
  using assms by (auto simp add: strip_def strip_atMe_def strip_name_def strip_prefix_def)


lemma match_here_Some_iff: "match_here r s \<noteq> None \<longleftrightarrow> matches r s \<noteq> []"
  by (simp add: match_here_def split: list.splits)

lemma matches_Seq_iff:
  "matches (Seq a b) s \<noteq> [] \<longleftrightarrow> (\<exists>r\<in>set (matches a s). matches b r \<noteq> [])"
  by simp

lemma set_matches_Alt_Lit:
  "set (matches (Alt (map Lit ps)) s) = {drop (length p) s |p. p \<in> set ps \<and> starts_with s p}"
  by (auto simp: matches_Alt_Lit)

lemma matches_items_iff:
  "matches (Seq (Alt (map Lit ps)) suf) r \<noteq> [] \<longleftrightarrow>
     (\<exists>p\<in>set ps. starts_with r p \<and> matches suf (drop (length p) r) \<noteq> [])"
  unfolding matches_Seq_iff set_matches_Alt_Lit by blast

lemma createLeadingRE_spec:
  "match (createLeadingRE patterns pre suf) m \<noteq> None \<longleftrightarrow> leading_spec patterns pre suf m"
proof (cases "patterns = []")
  case True
  then show ?thesis by (simp add: createLeadingRE_def leading_spec_def)
next
  case False
  have "match (createLeadingRE patterns pre suf) m \<noteq> None \<longleftrightarrow>
        matches (Seq pre (Seq (Alt (map Lit patterns)) suf)) m \<noteq> []"
    using False match_here_Some_iff[of "Seq pre (Seq (Alt (map Lit patterns)) suf)" m]
    by (simp add: createLeadingRE_def del: matches.simps)
  also have "\<dots> \<longleftrightarrow> (\<exists>r\<in>set (matches pre m). matches (Seq (Alt (map Lit patterns)) suf) r \<noteq> [])"
    by (rule matches_Seq_iff)
  also have "\<dots> \<longleftrightarrow> leading_spec patterns pre suf m"
    using False unfolding matches_items_iff leading_spec_def by simp
  finally show ?thesis .
qed






text \<open>
  Claim C7, amended. Each of the three matchers accepts a message exactly as the contract
  above says: built from its list when the list is not empty, and otherwise the pattern
  \<open>/^$/\<close>, which accepts the empty message and no other.
\<close>

theorem leading_matchers:
  "(match (make_atMeRE bs) m \<noteq> None) =
     leading_spec (known_selfIds bs) (Lit (js ''[CQ:at,qq='')) (Seq (Lit (js '']'')) SpaceStar) m
   \<and> (match (make_nameRE nick) m \<noteq> None) =
     leading_spec (nicknames_of nick) (Opt (Lit (js ''@''))) name_suffix m
   \<and> (match (make_prefixRE pre) m \<noteq> None) =
     leading_spec (prefixes_of pre) (Lit []) (Lit []) m"
  unfolding make_atMeRE_def make_nameRE_def make_prefixRE_def createLeadingRE_spec by simp

theorem leading_matchers_witness:
  "match (make_atMeRE [\<lparr>selfId = Some 123, has_get = True\<rparr>]) (js ''[CQ:at,qq=123] hi'') \<noteq> None
   \<and> match (make_nameRE Unset) (js ''bot, hi'') = None
   \<and> match (make_prefixRE (Multiple [js ''.'', js ''/''])) (js ''/help'') \<noteq> None"
  using leading_matchers[of "[\<lparr>selfId = Some 123, has_get = True\<rparr>]" "js ''[CQ:at,qq=123] hi''" Unset "Multiple [js ''.'', js ''/'']"]
    leading_matchers[of "[]" "js ''bot, hi''" Unset Unset]
    leading_matchers[of "[]" "js ''/help''" Unset "Multiple [js ''.'', js ''/'']"]
  by (simp add: leading_spec_def known_selfIds_def id_text_def truthy_id_def js_def starts_with_def greedy_def is_space_def)

text \<open>
  Claim C7 as stated fails on the empty message: each matcher over an empty list matches it.
\<close>

theorem empty_list_matcher_counterexample:
  "match (make_atMeRE []) [] = Some [] \<and> match (make_nameRE Unset) [] = Some []
   \<and> match (make_prefixRE (Multiple [])) [] = Some []"
  by (simp add: make_atMeRE_def make_nameRE_def make_prefixRE_def createLeadingRE_def known_selfIds_def id_text_def)

section \<open>Properties of the dispatcher\<close>

lemma this_perform [simp]: "this (perform a s) = this s"
  by (cases "(a, s)" rule: perform.cases) simp_all

lemma trace_perform [simp]: "trace (perform a s) = trace s @ [Did a]"
  by (cases "(a, s)" rule: perform.cases) simp_all

lemma index_perform [simp]: "index (perform a s) = index s"
  by (cases "(a, s)" rule: perform.cases) simp_all

lemma stack_perform [simp]: "stack (perform a s) = stack s"
  by (cases "(a, s)" rule: perform.cases) simp_all

lemma middlewares_perform [simp]: "middlewares (perform a s) = middlewares s"
  by (cases "(a, s)" rule: perform.cases) simp_all

lemma enter_fields [simp]:
  "this (enter lc s) = this s" "trace (enter lc s) = trace s" "index (enter lc s) = index s"
  "middlewares (enter lc s) = middlewares s" "sess (enter lc s) = sess s"
  by (simp_all add: enter_def)

lemma catch_fields [simp]:
  "this (catch rt lc e s) = this s" "index (catch rt lc e s) = index s"
  "middlewares (catch rt lc e s) = middlewares s" "sess (catch rt lc e s) = sess s"
  "stack (catch rt lc e s) = stack s"
  "trace (catch rt lc e s) = trace s @ [Warned (warning rt lc e s)]"
  by (simp_all add: catch_def)

lemma push_fields [simp]:
  "this (push fb s) = this s" "trace (push fb s) = trace s" "index (push fb s) = index s"
  "sess (push fb s) = sess s" "stack (push fb s) = stack s"
  by (simp_all add: push_def split: option.splits)

lemma start_fields [simp]:
  "trace (start a ss) = []" "index (start a ss) = 0" "sess (start a ss) = ss"
  "middlewares (start a ss) = snapshot a ss" "stack (start a ss) = []"
  "middlewareSet (this (start a ss)) = insert (middlewareCounter a) (middlewareSet a)"
  by (simp_all add: start_def)

lemma performs_simps [simp]:
  "performs [] s = s" "performs (a # as) s = performs as (perform a s)"
  by (simp_all add: performs_def)

lemma performs_append: "performs (as @ bs) s = performs bs (performs as s)"
  by (simp add: performs_def)

lemma performs_fields [simp]:
  "index (performs as s) = index s" "middlewares (performs as s) = middlewares s"
  "this (performs as s) = this s" "trace (performs as s) = trace s @ map Did as"
  "stack (performs as s) = stack s"
  by (induction as arbitrary: s) simp_all

lemma run_foldr_Do: "run rt c (foldr Do acts k) s = run rt c k (performs acts s)"
  by (induction acts arbitrary: s) simp_all

lemma next_not_Thrown: "fst (next rt c fb lc s) \<noteq> Thrown e"
  by (simp add: next.simps Let_def split: option.splits prod.splits outcome.splits)

lemma next_cases:
  obtains s' where "next rt c fb lc s = (Resolved, s')"
  | e s' where "next rt c fb lc s = (Rejected e, s')"
proof (cases "next rt c fb lc s")
  case (Pair r s')
  then show ?thesis using next_not_Thrown[of rt c fb lc s] that by (cases r) auto
qed

lemma resolved_obtain:
  assumes "fst (next rt c fb lc s) = Resolved"
  obtains s' where "next rt c fb lc s = (Resolved, s')"
  using assms by (cases "next rt c fb lc s") auto

lemma run_next_chain:
  "this (snd (run rt c m s)) = this s \<and>
   (list_all chain_event (trace s) \<longrightarrow> list_all chain_event (trace (snd (run rt c m s))))"
  "this (snd (next rt c fb lc s)) = this s \<and>
   (list_all chain_event (trace s) \<longrightarrow> list_all chain_event (trace (snd (next rt c fb lc s))))"
proof (induct rt c m s and rt c fb lc s rule: run_next.induct)
  case (5 rt counter fallback lastCall awaited k s)
  obtain r s' where n: "next rt counter fallback lastCall s = (r, s')"
    by (cases "next rt counter fallback lastCall s")
  show ?case
  proof (cases r)
    case Resolved
    then show ?thesis using 5(1) 5(2)[of r s'] n by simp
  next
    case (Thrown e)
    then show ?thesis using 5(1) 5(3)[of r s' e] n by simp
  next
    case (Rejected e)
    then show ?thesis using 5(1) 5(4)[of r s' e] n by (cases awaited) simp_all
  qed
next
  case (6 rt counter fallback lastCall s)
  define s1 where "s1 = enter lastCall s"
  define s2 where "s2 = push fallback s1"
  show ?case
  proof (cases "isolated rt counter lastCall s1")
    case (Some e)
    then show ?thesis by (simp add: next.simps s1_def[symmetric]) (simp add: s1_def)
  next
    case None
    show ?thesis
    proof (cases "index s2 < length (middlewares s2)")
      case True
      let ?s3 = "s2\<lparr>index := Suc (index s2)\<rparr>"
      let ?s3' = "?s3\<lparr>trace := trace ?s3 @ [Entered (index s2)]\<rparr>"
      note ih = 6[OF s1_def None s2_def refl refl True]
      obtain r s4 where r: "run rt counter (middlewares s2 ! index s2) ?s3' = (r, s4)"
        by (cases "run rt counter (middlewares s2 ! index s2) ?s3'")
      have base: "this ?s3' = this s" "trace ?s3' = trace s @ [Entered (index s2)]"
        by (simp_all add: s2_def s1_def)
      show ?thesis using None True r ih base
        by (cases r) (simp_all add: next.simps s1_def[symmetric] s2_def[symmetric] Let_def)
    next
      case False
      then show ?thesis using None
        by (simp add: next.simps s1_def[symmetric] s2_def[symmetric] Let_def) (simp add: s1_def s2_def)
    qed
  qed
qed simp_all

lemma chain_trace:
  "list_all chain_event (trace (snd (next rt c fb lc (start a ss))))"
  using run_next_chain(2)[of rt c fb lc "start a ss"] by simp

lemma count_chain_event:
  "list_all chain_event xs \<Longrightarrow> \<not> chain_event e \<Longrightarrow> count_list xs e = 0"
  by (induction xs) auto

lemma next_first:
  assumes "snapshot a ss = m # rest"
  shows "next rt (middlewareCounter a) None lc (start a ss) =
     (case run rt (middlewareCounter a) m ((start a ss)\<lparr>index := 1, trace := [Entered 0]\<rparr>) of
        (Thrown e, s4) \<Rightarrow> (Resolved, catch rt lc e s4)
      | (r, s4) \<Rightarrow> (r, s4))"
  using assms
  by (simp add: next.simps isolated_def enter_def push_def Let_def start_def)

lemma cleanup_ok:
  assumes "userUpdate upd = None"
  shows "snd (cleanup upd counter s) = cleaned counter s"
  using assms
  by (simp add: cleanup_def flush_user_def flush_group_def cleaned_def flushes_def
      split: option.splits)

lemma cleanup_trace_set:
  "set (trace (snd (cleanup upd c s))) \<subseteq>
     set (trace s) \<union> {Deleted c, AfterMiddleware, UserUpdated, GroupUpdated}"
  by (auto simp: cleanup_def flush_user_def flush_group_def split: option.splits)

lemma cleanup_group_only:
  assumes "sUser (sess s) = None" "sGroup (sess s) = Some g"
  shows "trace (snd (cleanup upd c s)) = trace s @ [Deleted c, AfterMiddleware, GroupUpdated]"
  using assms
  by (simp add: cleanup_def flush_user_def flush_group_def split: option.splits)

text \<open>
  A callback that throws synchronously is caught by the continuation, and the dispatch goes
  on to its cleanup.
\<close>

lemma thrown_is_caught:
  assumes "snapshot a ss = Throw e # rest"
  shows "applyMiddlewares rt lastCall upd a ss =
           cleanup upd (middlewareCounter a)
             (catch rt lastCall e ((start a ss)\<lparr>index := 1, trace := [Entered 0]\<rparr>))"
  using next_first[OF assms, of rt lastCall]
  by (simp add: applyMiddlewares_def)

lemmas eval_next = next.simps enter_def isolated_def push_def start_def snapshot_def
  with_middlewares_def demo_app_def Let_def

lemmas eval_trail = trail_entry_def parenRE_def match_here_def greedy_def is_dot_def
  starts_with_def js_def

lemmas eval_strip = addressed_def strip_def strip_atMe_def strip_name_def strip_prefix_def
  make_atMeRE_def make_nameRE_def make_prefixRE_def createLeadingRE_def known_selfIds_def id_text_def
  truthy_id_def demo_bots_def name_suffix_def match_here_def greedy_def is_space_def trim_def
  starts_with_def

text \<open>
  Claim C1. Once the token of a dispatch is out of the live set, an invocation of its
  continuation throws the error \<open>isolated next function detected\<close> inside its \<open>try\<close>
  block, before the fallback is appended and before any callback is called: the cursor and
  the list of callbacks stay as they are, and the one event it adds is the warning that logs
  the error with the trail. The error is caught by the continuation itself, whose promise
  is fulfilled.
\<close>

theorem stale_continuation:
  assumes "counter \<notin> middlewareSet (this s)"
  shows "isolated rt counter lastCall (enter lastCall s) =
           Some (NativeError (rt (js ''isolated next function detected'') lastCall))
    \<and> next rt counter fallback lastCall s =
           (Resolved, catch rt lastCall (NativeError (rt (js ''isolated next function detected'') lastCall))
                        (enter lastCall s))
    \<and> index (snd (next rt counter fallback lastCall s)) = index s
    \<and> middlewares (snd (next rt counter fallback lastCall s)) = middlewares s
    \<and> trace (snd (next rt counter fallback lastCall s)) =
         trace s @ [Warned (warning rt lastCall
                      (NativeError (rt (js ''isolated next function detected'') lastCall))
                      (enter lastCall s))]"
  using assms by (simp add: next.simps isolated_def)

theorem stale_continuation_witness:
  "next demo_runtime 0 (Some Return) (js ''    at late (a.js:9:1)'') demo_world =
     (Resolved,
      demo_world\<lparr>stack := [10, 32, 32, 45, 32] @ js ''a.js:9:1'',
        trace := [Entered 0, Deleted 0, AfterMiddleware,
          Warned (js ''hi'' @ [10] @ js ''Error: isolated next function detected'' @ [10]
                  @ js ''Middleware stack:'' @ [10, 32, 32, 45, 32] @ js ''a.js:9:1'')]\<rparr>)"
proof -
  have "0 \<notin> middlewareSet (this demo_world)"
    by (simp add: demo_world_def demo_app_def)
  from stale_continuation[OF this, of demo_runtime "js ''    at late (a.js:9:1)''" "Some Return"]
  show ?thesis
    by (simp add: demo_world_def demo_runtime_def demo_session_def catch_def warning_def
        native_stack_def enter_def trail_entry_def parenRE_def match_here_def greedy_def
        is_dot_def starts_with_def indexOf_def slice0_def js_def)
qed

text \<open>
  Claim C2, at an input where the code departs from it. The first callback of the snapshot
  returns a promise that is rejected. The continuation returns that promise without
  \<open>await\<close>, so its \<open>catch\<close> does not run: no warning is logged, the dispatch is rejected
  with the same value, and the cleanup is skipped, the token staying in the live set.
\<close>

theorem rejection_escapes:
  assumes "snapshot a ss = Reject e # rest"
  shows "applyMiddlewares rt lastCall upd a ss =
           (Rejected e, (start a ss)\<lparr>index := 1, trace := [Entered 0]\<rparr>)
     \<and> middlewareCounter a \<in> middlewareSet (this (snd (applyMiddlewares rt lastCall upd a ss)))"
  using next_first[OF assms, of rt lastCall]
  by (simp add: applyMiddlewares_def)

theorem rejection_escapes_witness:
  "applyMiddlewares demo_runtime (js ''    at App._applyMiddlewares (app.js:254:11)'') demo_updates
     (with_middlewares [Reject (NativeError (js ''Error: boom''))] demo_app) (demo_session Private ''hi'') =
   (Rejected (NativeError (js ''Error: boom'')),
    \<lparr>this = (with_middlewares [Reject (NativeError (js ''Error: boom''))] demo_app)
              \<lparr>middlewareCounter := 1, middlewareSet := {0}\<rparr>,
     index = 1, stack = [], middlewares = [Reject (NativeError (js ''Error: boom''))],
     sess = demo_session Private ''hi'', trace = [Entered 0]\<rparr>)"
proof -
  have "snapshot (with_middlewares [Reject (NativeError (js ''Error: boom''))] demo_app)
          (demo_session Private ''hi'') = Reject (NativeError (js ''Error: boom'')) # []"
    by (simp add: snapshot_def with_middlewares_def)
  from rejection_escapes[OF this, of demo_runtime _ demo_updates]
  show ?thesis by (simp add: start_def snapshot_def with_middlewares_def demo_app_def)
qed

text \<open>
  The continuation call of the dispatcher is fulfilled whenever no callback of the snapshot
  ends in a rejected promise.
\<close>

lemma no_reject_CallNext:
  "no_reject (CallNext fb lc aw k) \<longleftrightarrow> (case fb of None \<Rightarrow> True | Some f \<Rightarrow> no_reject f) \<and> no_reject k"
  by (cases fb) simp_all

lemma middlewares_push:
  "middlewares (push fb s) = (case fb of None \<Rightarrow> middlewares s | Some f \<Rightarrow> middlewares s @ [f])"
  by (simp add: push_def split: option.splits)

lemma run_next_no_reject:
  "no_reject m \<and> list_all no_reject (middlewares s) \<longrightarrow>
     (\<forall>x. fst (run rt c m s) \<noteq> Rejected x) \<and> list_all no_reject (middlewares (snd (run rt c m s)))"
  "(case fb of None \<Rightarrow> True | Some f \<Rightarrow> no_reject f) \<and> list_all no_reject (middlewares s) \<longrightarrow>
     fst (next rt c fb lc s) = Resolved \<and> list_all no_reject (middlewares (snd (next rt c fb lc s)))"
proof (induct rt c m s and rt c fb lc s rule: run_next.induct)
  case (5 rt counter fallback lastCall awaited k s)
  show ?case
  proof (intro impI)
    assume h: "no_reject (CallNext fallback lastCall awaited k) \<and> list_all no_reject (middlewares s)"
    then have f: "(case fallback of None \<Rightarrow> True | Some f \<Rightarrow> no_reject f)" and k: "no_reject k"
      by (simp_all add: no_reject_CallNext)
    obtain s' where n: "next rt counter fallback lastCall s = (Resolved, s')"
      and m: "list_all no_reject (middlewares s')"
      using 5(1) f h by (cases "next rt counter fallback lastCall s") auto
    show "(\<forall>x. fst (run rt counter (CallNext fallback lastCall awaited k) s) \<noteq> Rejected x) \<and>
          list_all no_reject (middlewares (snd (run rt counter (CallNext fallback lastCall awaited k) s)))"
      using 5(2)[of Resolved s'] n k m by simp
  qed
next
  case (6 rt counter fallback lastCall s)
  define s1 where "s1 = enter lastCall s"
  define s2 where "s2 = push fallback s1"
  show ?case
  proof (intro impI)
    assume h: "(case fallback of None \<Rightarrow> True | Some f \<Rightarrow> no_reject f) \<and> list_all no_reject (middlewares s)"
    then have m2: "list_all no_reject (middlewares s2)"
      by (auto simp: s2_def s1_def middlewares_push split: option.splits)
    show "fst (next rt counter fallback lastCall s) = Resolved \<and>
          list_all no_reject (middlewares (snd (next rt counter fallback lastCall s)))"
    proof (cases "isolated rt counter lastCall s1")
      case (Some e)
      then show ?thesis using h by (simp add: next.simps s1_def[symmetric]) (simp add: s1_def)
    next
      case None
      show ?thesis
      proof (cases "index s2 < length (middlewares s2)")
        case True
        let ?s3 = "s2\<lparr>index := Suc (index s2)\<rparr>"
        let ?s3' = "?s3\<lparr>trace := trace ?s3 @ [Entered (index s2)]\<rparr>"
        have nm: "no_reject (middlewares s2 ! index s2)"
          using m2 True by (simp add: list_all_length)
        note ih = 6[OF s1_def None s2_def refl refl True]
        obtain r s4 where r: "run rt counter (middlewares s2 ! index s2) ?s3' = (r, s4)"
          by (cases "run rt counter (middlewares s2 ! index s2) ?s3'")
        have "(\<forall>x. r \<noteq> Rejected x) \<and> list_all no_reject (middlewares s4)"
          using ih nm m2 r by simp
        then show ?thesis using None True r
          by (cases r) (simp_all add: next.simps s1_def[symmetric] s2_def[symmetric] Let_def)
      next
        case False
        then show ?thesis using None m2
          by (simp add: next.simps s1_def[symmetric] s2_def[symmetric] Let_def)
      qed
    qed
  qed
qed simp_all

lemma sync_failures_resolve:
  assumes "list_all no_reject (snapshot a ss)"
  shows "fst (next rt c None lastCall (start a ss)) = Resolved"
  using run_next_no_reject(2)[of None "start a ss" rt c lastCall] assms by simp



section \<open>Properties of the first middleware\<close>

lemma preprocess_hooks [simp]: "preprocess (a\<lparr>hooks := h\<rparr>) ev lc ss = preprocess a ev lc ss"
  by (simp add: preprocess_def addressed_def gate_def)

lemma installed_fields [simp]:
  "snapshot (installed ev lc a) ss = snapshot a ss @ [preprocess a ev lc ss]"
  "database (installed ev lc a) = database a"
  "middlewareCounter (installed ev lc a) = middlewareCounter a"
  "middlewareSet (installed ev lc a) = middlewareSet a"
  "preprocess (installed ev lc a) ev' lc' ss = preprocess a ev' lc' ss"
  "addressed (installed ev lc a) ev' ss = addressed a ev' ss"
  by (simp_all add: installed_def snapshot_def addressed_def)

lemma demo_app_fields [simp]:
  "database demo_app" "middlewareCounter demo_app = 0" "middlewareSet demo_app = {}"
  "snapshot demo_app ss = []"
  by (simp_all add: demo_app_def snapshot_def)

lemma run_user_passes:
  assumes "user_passes ev"
  shows "run rt c (attach_user ev k) s = run rt c k (performs (user_steps ev) s)"
  using assms
  by (auto simp: user_passes_def attach_user_def user_steps_def split: sum.splits)

lemma run_group_passes:
  assumes "group_passes ev ss p"
  shows "run rt c (attach_group ev ss p k) s = run rt c k (performs (group_steps ev) s)"
  using assms
  by (auto simp: group_passes_def attach_group_def group_steps_def split: sum.splits)

lemma run_reaches_trigger:
  assumes "reaches_trigger a ev ss"
  shows "run rt c (gate a ev ss (addressed a ev ss) (attached ev k)) s =
         run rt c k (performs (gate_steps a ev ss @ [Parallelize (js ''attach'')]) s)"
proof -
  have att: "\<And>s. run rt c (attached ev k) s = run rt c k (perform (Parallelize (js ''attach'')) s)"
    using assms by (simp add: reaches_trigger_def attached_def)
  show ?thesis
  proof (cases "database a")
    case False
    then show ?thesis by (simp add: gate_def gate_steps_def att)
  next
    case True
    then have u: "user_passes ev" using assms by (simp add: reaches_trigger_def)
    show ?thesis
    proof (cases "sMessageType ss = Group")
      case False
      then show ?thesis using True
        by (simp add: gate_def gate_steps_def run_user_passes[OF u] att performs_append)
    next
      case g: True
      then have "group_passes ev ss (addressed a ev ss)"
        using assms True by (simp add: reaches_trigger_def)
      then show ?thesis using True g
        by (simp add: gate_def gate_steps_def run_group_passes run_user_passes[OF u] att performs_append)
    qed
  qed
qed

lemma run_trigger_Some:
  "run rt c (trigger ev lc (Some v)) s = (settled (execute ev), perform (Execute v) s)"
  by (simp add: trigger_def settled_def split: option.splits)

lemma run_trigger_None:
  "run rt c (trigger ev lc None) s = next rt c None lc s"
  by (rule next_cases[of rt c None lc s]) (simp_all add: trigger_def)

lemma run_preprocess_passes:
  assumes "reaches_trigger a ev ss"
  shows "run rt c (preprocess a ev lc ss) s =
    run rt c (trigger ev lc (parse ev ss (addressed a ev ss)))
      (performs (Assign (addressed a ev ss) (parse ev ss (addressed a ev ss)) # gate_steps a ev ss
                 @ [Parallelize (js ''attach'')]) s)"
  using run_reaches_trigger[OF assms]
  by (simp add: preprocess_def Let_def)

lemma dispatch_command_entered:
  assumes "reaches_trigger a ev ss" and "parse ev ss (addressed a ev ss) = Some v"
    and "snapshot a ss = preprocess a ev lc ss # rest"
    and "Entered i \<in> set (trace (snd (applyMiddlewares rt lc0 upd a ss)))"
  shows "i = 0"
proof -
  let ?s0 = "(start a ss)\<lparr>index := 1, trace := [Entered 0]\<rparr>"
  let ?acts = "steps_to_trigger a ev ss @ [Execute v]"
  have r: "run rt (middlewareCounter a) (preprocess a ev lc ss) ?s0 = (settled (execute ev), performs ?acts ?s0)"
    using run_preprocess_passes[OF assms(1), of rt "middlewareCounter a" lc ?s0] assms(2)
    by (simp add: run_trigger_Some performs_append steps_to_trigger_def)
  have t: "trace (performs ?acts ?s0) = Entered 0 # map Did ?acts" by simp
  show ?thesis
  proof (cases "execute ev")
    case None
    then have "applyMiddlewares rt lc0 upd a ss = cleanup upd (middlewareCounter a) (performs ?acts ?s0)"
      using next_first[OF assms(3), of rt lc0] r by (simp add: applyMiddlewares_def settled_def)
    then have "Entered i \<in> set (trace (performs ?acts ?s0)) \<union>
                 {Deleted (middlewareCounter a), AfterMiddleware, UserUpdated, GroupUpdated}"
      using assms(4) cleanup_trace_set[of upd "middlewareCounter a" "performs ?acts ?s0"] by auto
    then show ?thesis unfolding t by auto
  next
    case (Some e)
    then have "applyMiddlewares rt lc0 upd a ss = (Rejected e, performs ?acts ?s0)"
      using next_first[OF assms(3), of rt lc0] r by (simp add: applyMiddlewares_def settled_def)
    then show ?thesis using assms(4) unfolding t by auto
  qed
qed

lemma demo_ping:
  "addressed demo_app demo_env (demo_session Private ''ping'') = ping"
  "addressed demo_app demo_env_command (demo_session Private ''ping'') = ping"
  by (simp_all add: demo_app_def demo_session_def demo_env_def demo_env_command_def ping_def eval_strip js_def)

lemma demo_user_steps:
  "gate_steps demo_app demo_env (demo_session Private ''ping'') =
     [Emit (js ''before-attach-user''), ObserveUser [js ''flag''] (Inr \<lparr>uflag = 0\<rparr>),
      Serialize (js ''attach-user'')]"
  "gate_steps demo_app demo_env_command (demo_session Private ''ping'') =
     [Emit (js ''before-attach-user''), ObserveUser [js ''flag''] (Inr \<lparr>uflag = 0\<rparr>),
      Serialize (js ''attach-user'')]"
  by (simp_all add: gate_steps_def user_steps_def demo_app_def demo_session_def demo_env_def demo_env_command_def)



lemma sess_performs_group:
  assumes "observeGroup ev = Inr g"
  shows "sUser (sess (performs (Assign p av # group_steps ev) s)) = sUser (sess s)"
    and "sGroup (sess (performs (Assign p av # group_steps ev) s)) = Some g"
  using assms by (simp_all add: group_steps_def)

lemma run_group_aborts:
  assumes "database a" and "sMessageType ss = Group"
    and "observeGroup ev = Inr g" and "attachGroup ev = Inr veto"
    and "flagged (gflag g) (Group_Flag_ignore ev) \<or> (assignee g \<noteq> sSelfId ss \<and> \<not> atMe (addressed a ev ss))"
  shows "run rt c (preprocess a ev lc ss) s =
           (Resolved, performs (Assign (addressed a ev ss) (parse ev ss (addressed a ev ss)) # group_steps ev) s)"
  using assms
  by (auto simp: preprocess_def Let_def gate_def attach_group_def group_steps_def)

lemma demo_hello:
  "addressed demo_app demo_env_ignored (demo_session Group ''hello'') = hello"
  by (simp add: demo_app_def demo_session_def demo_env_def demo_env_ignored_def hello_def eval_strip js_def)

lemma demo_mention_other:
  "addressed demo_app demo_env (demo_session Group ''[CQ:at,qq=2] hi'') = mention_other"
  by (simp add: demo_app_def demo_session_def demo_env_def mention_other_def eval_strip js_def)

lemma demo_mention_other_script:
  "preprocess demo_app demo_env at_preprocess (demo_session Group ''[CQ:at,qq=2] hi'') =
      foldr Do (Assign mention_other None # group_steps demo_env @ user_steps demo_env @ [Parallelize (js ''attach'')])
        (CallNext None at_preprocess True Return)"
  unfolding preprocess_def demo_mention_other
  by (simp add: gate_def attach_group_def attach_user_def attached_def trigger_def group_steps_def
        user_steps_def demo_env_def demo_session_def mention_other_def flagged_def)




section \<open>Properties of the bot identity resolver\<close>

lemma prepare_promise [simp]: "getSelfIdsPromise (prepare a) = getSelfIdsPromise a"
  by (simp add: prepare_def)

lemma take_turn_settled:
  assumes "getSelfIdsPromise (app st) \<noteq> None"
  shows "loginCalls (take_turn t st) = loginCalls st \<and> created (take_turn t st) = created st
         \<and> getSelfIdsPromise (app (take_turn t st)) \<noteq> None"
  using assms
  by (cases t) (auto simp: getSelfIds_def loginInfo_def loginError_def Let_def)

lemma turns_settled:
  assumes "getSelfIdsPromise (app st) \<noteq> None"
  shows "loginCalls (turns ts st) = loginCalls st \<and> created (turns ts st) = created st"
  using assms
proof (induction ts arbitrary: st)
  case Nil
  then show ?case by (simp add: turns_def)
next
  case (Cons t ts)
  have "turns (t # ts) st = turns ts (take_turn t st)" by (simp add: turns_def)
  then show ?case using Cons.IH[of "take_turn t st"] take_turn_settled[OF Cons.prems, of t] by simp
qed

lemma take_turn_idle:
  assumes "inFlight st = []" "t \<noteq> GetSelfIds"
  shows "take_turn t st = st"
  using assms by (cases t) (simp_all add: loginInfo_def loginError_def)

lemma count_list_distinct:
  "distinct xs \<Longrightarrow> count_list xs x = (if x \<in> set xs then 1 else 0)"
  by (induction xs) auto

lemma count_first_calls:
  "count_list (filter (\<lambda>i. needs_login (bs ! i)) (selected bs)) i =
     (if i < length bs \<and> needs_login (bs ! i) then 1 else 0)"
proof -
  have "distinct (filter (\<lambda>i. needs_login (bs ! i)) (selected bs))"
    by (simp add: selected_def)
  then show ?thesis
    by (auto simp: count_list_distinct selected_def needs_login_def)
qed

lemma first_getSelfIds:
  "loginCalls (getSelfIds (fresh a)) = filter (\<lambda>i. needs_login (bots a ! i)) (selected (bots a))"
  "created (getSelfIds (fresh a)) = 1"
  "getSelfIdsPromise (app (getSelfIds (fresh a))) \<noteq> None"
  by (simp_all add: getSelfIds_def fresh_def Let_def)

lemma turns_fresh:
  "loginCalls (turns ts (fresh a)) =
     (if GetSelfIds \<in> set ts then filter (\<lambda>i. needs_login (bots a ! i)) (selected (bots a)) else [])
   \<and> created (turns ts (fresh a)) = (if GetSelfIds \<in> set ts then 1 else 0)"
proof (induction ts)
  case Nil
  then show ?case by (simp add: turns_def fresh_def)
next
  case (Cons t ts)
  have unfold: "turns (t # ts) (fresh a) = turns ts (take_turn t (fresh a))"
    by (simp add: turns_def)
  show ?case
  proof (cases "t = GetSelfIds")
    case True
    then show ?thesis
      unfolding unfold using turns_settled[OF first_getSelfIds(3), of ts a] first_getSelfIds(1,2)[of a]
      by simp
  next
    case False
    have "inFlight (fresh a) = []" by (simp add: fresh_def)
    then have "take_turn t (fresh a) = fresh a" using False by (rule take_turn_idle)
    then show ?thesis unfolding unfold using Cons.IH False by simp
  qed
qed

text \<open>
  Claim C8, amended. However the calls of \<open>getSelfIds\<close> and the answers of the network
  interleave, \<open>getSelfIds\<close> creates one promise, which every call awaits, and
  \<open>getLoginInfo\<close> is called once for each bot that has a request channel and no
  identifier when \<open>getSelfIds\<close> is first called, and never for another bot.
\<close>

theorem login_calls:
  "count_list (loginCalls (turns ts (fresh a))) i =
     (if GetSelfIds \<in> set ts \<and> i < length (bots a) \<and> needs_login (bots a ! i) then 1 else 0)
   \<and> created (turns ts (fresh a)) = (if GetSelfIds \<in> set ts then 1 else 0)"
  using turns_fresh[of ts a] count_first_calls[of "bots a" i] by simp

theorem login_calls_witness:
  "count_list (loginCalls (turns [GetSelfIds, GetSelfIds, LoginInfo 0 7, GetSelfIds] (fresh demo_unknown))) 0 = 1
   \<and> count_list (loginCalls (turns [GetSelfIds, GetSelfIds, LoginInfo 0 7, GetSelfIds] (fresh demo_unknown))) 1 = 0
   \<and> created (turns [GetSelfIds, GetSelfIds, LoginInfo 0 7, GetSelfIds] (fresh demo_unknown)) = 1"
  using login_calls[of "[GetSelfIds, GetSelfIds, LoginInfo 0 7, GetSelfIds]" demo_unknown 0]
    login_calls[of "[GetSelfIds, GetSelfIds, LoginInfo 0 7, GetSelfIds]" demo_unknown 1]
  by (simp add: demo_unknown_def needs_login_def truthy_id_def)

text \<open>
  Claim C8 as stated fails for a bot whose identifier is configured: no
  \<open>getLoginInfo\<close> call is made for it.
\<close>

theorem known_bot_counterexample:
  "bots demo_app ! 0 = \<lparr>selfId = Some 1, has_get = True\<rparr>
   \<and> count_list (loginCalls (turns [GetSelfIds, GetSelfIds] (fresh demo_app))) 0 = 0"
  using turns_fresh[of "[GetSelfIds, GetSelfIds]" demo_app]
    count_first_calls[of "bots demo_app" 0]
  by (simp add: demo_app_def demo_bots_def needs_login_def truthy_id_def)

section \<open>Properties of the help plugin\<close>

text \<open>
  Claim C9. When the command has no action or the help option is set, the hook on
  \<open>before-command\<close> executes \<open>help\<close> with the name of the command as its one argument
  and, once that execution has settled, returns \<open>true\<close> (it is rejected when the execution
  is); otherwise it returns \<open>undefined\<close> and calls nothing.
\<close>

theorem help_interception:
  "(if \<not> has_action (command av) \<or> helpOption av
    then before_command executed av ss =
           ([\<lparr>ecommand = js ''help'', eargs = [name (command av)], esession = ss\<rparr>],
            case executed of None \<Rightarrow> Inr (Some True) | Some e \<Rightarrow> Inl e)
    else before_command executed av ss = ([], Inr None))"
  by (simp add: before_command_def)

theorem help_interception_witness:
  "before_command None demo_group (demo_session Private ''admin'') =
     ([\<lparr>ecommand = js ''help'', eargs = [js ''admin''], esession = demo_session Private ''admin''\<rparr>],
      Inr (Some True))
   \<and> before_command None demo_argv (demo_session Private ''ping'') = ([], Inr None)
   \<and> before_command None (demo_argv\<lparr>helpOption := True\<rparr>) (demo_session Private ''ping -h'') =
     ([\<lparr>ecommand = js ''help'', eargs = [js ''ping''], esession = demo_session Private ''ping -h''\<rparr>],
      Inr (Some True))"
  using help_interception[of demo_group None "demo_session Private ''admin''"]
    help_interception[of demo_argv None "demo_session Private ''ping''"]
    help_interception[of "demo_argv\<lparr>helpOption := True\<rparr>" None "demo_session Private ''ping -h''"]
  by (simp add: demo_group_def demo_argv_def)

text \<open>
  Claim C10. Once the plugin has registered its listener, a command node that is created
  has the empty list of examples, and the last option registered on it is the hidden
  \<open>-h, --help\<close>.
\<close>

theorem help_new_command:
  "examples (create_command (apply_help listeners) cmd) = Some []
   \<and> last (options (create_command (apply_help listeners) cmd)) =
       \<lparr>rawName = js ''-h, --help'', description = [26174, 31034, 27492, 20449, 24687], hidden = True\<rparr>"
  by (simp add: create_command_def apply_help_def new_command_def cmd_option_def)

theorem help_new_command_witness:
  "create_command (apply_help []) \<lparr>name = js ''echo'', has_action = True, examples = None, options = []\<rparr> =
     \<lparr>name = js ''echo'', has_action = True, examples = Some [],
      options = [\<lparr>rawName = js ''-h, --help'', description = [26174, 31034, 27492, 20449, 24687],
                  hidden = True\<rparr>]\<rparr>"
  using help_new_command[of "[]" "\<lparr>name = js ''echo'', has_action = True, examples = None, options = []\<rparr>"]
  by (simp add: create_command_def apply_help_def new_command_def cmd_option_def)

end
